theory Spec2Isabelle
  imports Main
begin

section \<open>Python strings\<close>

text \<open>
  A Python \<open>str\<close> is a sequence of Unicode code points; it is modelled as a list of
  natural numbers. \<open>py\<close> turns an ASCII literal into such a list.
\<close>

type_synonym str = "nat list"

abbreviation py :: "string \<Rightarrow> str" where
  "py s \<equiv> map of_char s"

section \<open>The slug transform\<close>

subsection \<open>\<open>unicodedata.normalize("NFKD", value)\<close>\<close>

text \<open>
  The Unicode Character Database is data of the Python runtime, not of the repository.
  It is a parameter of the model: \<open>decomposition\<close> is the full compatibility
  decomposition of a code point (the code point itself when it has none) and
  \<open>combining\<close> its canonical combining class. Both are consulted for code points
  above U+007F only: an ASCII character has no decomposition and combining class 0 in
  every version of the database.
\<close>

record ucd =
  decomposition :: "nat \<Rightarrow> nat list"
  combining :: "nat \<Rightarrow> nat"

definition decompose :: "ucd \<Rightarrow> nat \<Rightarrow> nat list" where
  "decompose t c = (if c < 128 then [c] else decomposition t c)"

definition ccc :: "ucd \<Rightarrow> nat \<Rightarrow> nat" where
  "ccc t c = (if c < 128 then 0 else combining t c)"

text \<open>
  Canonical ordering: every maximal run of characters with a non-zero combining class is
  sorted by combining class, stably.
\<close>

function canonical_order :: "ucd \<Rightarrow> str \<Rightarrow> str" where
  "canonical_order t [] = []"
| "canonical_order t (c # cs) =
     (if ccc t c = 0 then c # canonical_order t cs
      else sort_key (ccc t) (c # takeWhile (\<lambda>d. ccc t d \<noteq> 0) cs)
           @ canonical_order t (dropWhile (\<lambda>d. ccc t d \<noteq> 0) cs))"
  by pat_completeness auto
termination
  by (relation "measure (\<lambda>(t, s). length s)")
     (auto simp: less_Suc_eq_le length_dropWhile_le)

definition normalize_NFKD :: "ucd \<Rightarrow> str \<Rightarrow> str" where
  "normalize_NFKD t s = canonical_order t (concat (map (decompose t) s))"

subsection \<open>\<open>.encode("ascii", "ignore").decode("ascii")\<close>\<close>

definition encode_ascii_ignore :: "str \<Rightarrow> str" where
  "encode_ascii_ignore s = filter (\<lambda>c. c < 128) s"

subsection \<open>\<open>str.lower\<close> and the character classes, on ASCII\<close>

text \<open>
  The three functions below are applied to the output of \<open>encode_ascii_ignore\<close>
  only, and give what Python gives on code points below 128: \<open>str.lower\<close> changes
  \<open>A\<close>..\<open>Z\<close>; \<open>\w\<close> of a \<open>str\<close> pattern is \<open>[a-zA-Z0-9_]\<close>; \<open>\s\<close> is
  \<open>str.isspace\<close>, that is U+0009..U+000D, U+001C..U+001F and the space.
\<close>

definition lower :: "nat \<Rightarrow> nat" where
  "lower c = (if 65 \<le> c \<and> c \<le> 90 then c + 32 else c)"

definition is_word :: "nat \<Rightarrow> bool" where
  "is_word c \<longleftrightarrow> (48 \<le> c \<and> c \<le> 57) \<or> (65 \<le> c \<and> c \<le> 90) \<or> (97 \<le> c \<and> c \<le> 122) \<or> c = 95"

definition is_space :: "nat \<Rightarrow> bool" where
  "is_space c \<longleftrightarrow> (9 \<le> c \<and> c \<le> 13) \<or> (28 \<le> c \<and> c \<le> 32)"

subsection \<open>The two substitutions and the strip\<close>

text \<open>\<open>re.sub(r"[^\w\s-]", "", v)\<close>: every character outside the class is deleted.\<close>

definition sub_non_word :: "str \<Rightarrow> str" where
  "sub_non_word v = filter (\<lambda>c. is_word c \<or> is_space c \<or> c = 45) v"

text \<open>\<open>re.sub(r"[-\s]+", "-", v)\<close>: every maximal run of hyphens and whitespace
  becomes one hyphen.\<close>

definition is_sep :: "nat \<Rightarrow> bool" where
  "is_sep c \<longleftrightarrow> c = 45 \<or> is_space c"

function sub_runs :: "str \<Rightarrow> str" where
  "sub_runs [] = []"
| "sub_runs (c # cs) =
     (if is_sep c then 45 # sub_runs (dropWhile is_sep cs) else c # sub_runs cs)"
  by pat_completeness auto
termination
  by (relation "measure length") (auto simp: less_Suc_eq_le length_dropWhile_le)

text \<open>\<open>v.strip(chars)\<close>: leading and trailing characters of \<open>chars\<close> are removed.\<close>

definition strip :: "str \<Rightarrow> str \<Rightarrow> str" where
  "strip chars v =
     rev (dropWhile (\<lambda>c. c \<in> set chars) (rev (dropWhile (\<lambda>c. c \<in> set chars) v)))"

definition slugify :: "ucd \<Rightarrow> str \<Rightarrow> str" where
  "slugify t value =
     (let value1 = encode_ascii_ignore (normalize_NFKD t value);
          value2 = sub_non_word (map lower value1)
      in strip (py ''-_'') (sub_runs value2))"

subsection \<open>The shape of a slug, as the specification words it\<close>

text \<open>
  \<open>match_segments A\<close> decides the regular expression \<open>^A+(-A+)*$\<close> for a character
  class \<open>A\<close> that does not contain the hyphen: the specification's
  \<open>^[a-z0-9]+(-[a-z0-9]+)*$\<close> is \<open>match_segments is_lower_alnum\<close>.
\<close>

definition is_lower_alnum :: "nat \<Rightarrow> bool" where
  "is_lower_alnum c \<longleftrightarrow> (48 \<le> c \<and> c \<le> 57) \<or> (97 \<le> c \<and> c \<le> 122)"

definition is_slug_word :: "nat \<Rightarrow> bool" where
  "is_slug_word c \<longleftrightarrow> is_lower_alnum c \<or> c = 95"

fun match_segments :: "(nat \<Rightarrow> bool) \<Rightarrow> str \<Rightarrow> bool" where
  "match_segments A [] = False"
| "match_segments A [c] = A c"
| "match_segments A (c # d # cs) =
     (A c \<and> (if d = 45 then match_segments A cs else match_segments A (d # cs)))"

text \<open>
  The same shape said without recursion over characters: non-empty segments of
  characters of \<open>A\<close>, joined by single hyphens (\<open>match_segments_join\<close> below).
\<close>

fun join :: "str list \<Rightarrow> str" where
  "join [] = []"
| "join [g] = g"
| "join (g # h # gs) = g @ 45 # join (h # gs)"

text \<open>No hyphen is followed by a hyphen.\<close>

fun single_hyphens :: "str \<Rightarrow> bool" where
  "single_hyphens [] = True"
| "single_hyphens [c] = True"
| "single_hyphens (c # d # cs) = (\<not> (c = 45 \<and> d = 45) \<and> single_hyphens (d # cs))"

subsection \<open>Rows of the Unicode Character Database used in the examples\<close>

text \<open>
  U+00E0 decomposes into U+0061 U+0300 and U+00E9 into U+0065 U+0301; the two
  combining accents have class 230; U+2014, the em dash, has no decomposition. Every
  other code point is given no decomposition and class 0 here.
\<close>

definition ucd_excerpt :: ucd where
  "ucd_excerpt =
     \<lparr>decomposition = (\<lambda>c. if c = 224 then [97, 768] else if c = 233 then [101, 769] else [c]),
      combining = (\<lambda>c. if c = 768 \<or> c = 769 then 230 else 0)\<rparr>"

section \<open>The storage provider, the wiki and the local files\<close>

text \<open>
  An exception is a value. \<open>Raised\<close> stands for whatever a client library or the
  operating system raises (authentication, network, not found, a file that cannot be
  opened); the program handles none of them.
\<close>

datatype py_error =
    AssertionError str
  | TypeError
  | Raised str

text \<open>
  A stored entry as the listing returns it (\<open>id\<close>, \<open>name\<close>, \<open>mimeType\<close>), together
  with the folders it resides in; the program reads \<open>mimeType\<close> and \<open>id\<close> only. A wiki
  page is the dictionary with \<open>id\<close> and \<open>title\<close>.
\<close>

record drive_file =
  file_id :: str
  file_name :: str
  mimeType :: str
  parents :: "str list"

record page =
  page_id :: str
  title :: str

text \<open>
  The calls a run makes to the outside: reading \<open>credentials.json\<close>, the two requests
  to the wiki, the three requests to the storage provider, and writing a local file.
  Printing is left out. The credentials and the wiki session are the same in every call
  of a run and are not arguments of the model.
\<close>

datatype call =
    LoadCredentials
  | GetAllPagesByLabel str
  | FilesList
  | FilesDelete str
  | GetPageAsPdf str
  | WriteFile str "nat list"
  | FilesCreate str str

text \<open>
  What a run changes: the entries the service account has access to, in the order the
  provider lists them, the local files, and the calls made so far.
\<close>

record state =
  drive :: "drive_file list"
  files :: "str \<rightharpoonup> nat list"
  calls :: "call list"

text \<open>
  What a run finds and cannot change: the environment variables, the Unicode tables of
  the runtime, the pages of the wiki by label and their PDF rendering, the identifier
  the storage provider gives to a new entry and the content type it records for a file
  name, and which calls raise: \<open>raises c s\<close> is the exception of call \<open>c\<close> made in
  state \<open>s\<close>, so that a call may fail or not depending on all that happened before.
\<close>

record world =
  environ :: "str \<rightharpoonup> str"
  unicode :: ucd
  labelled :: "str \<Rightarrow> page list"
  rendered :: "str \<Rightarrow> nat list"
  raises :: "call \<Rightarrow> state \<Rightarrow> py_error option"
  new_id :: "drive_file list \<Rightarrow> str"
  content_type :: "str \<Rightarrow> str"

definition invoke :: "world \<Rightarrow> call \<Rightarrow> state \<Rightarrow> py_error option \<times> state" where
  "invoke w c s = (raises w c s, s\<lparr>calls := calls s @ [c]\<rparr>)"

subsection \<open>The three storage operations\<close>

text \<open>
  \<open>service.files().list(pageSize=50)\<close> carries no query: the first 50 entries the
  account has access to. An empty result makes the function return \<open>None\<close>.
\<close>

definition read_google_drive ::
  "world \<Rightarrow> state \<Rightarrow> (py_error + drive_file list option) \<times> state" where
  "read_google_drive w s =
     (case invoke w FilesList s of
        (Some e, s1) \<Rightarrow> (Inl e, s1)
      | (None, s1) \<Rightarrow>
          (let items = take 50 (drive s1)
           in if items = [] then (Inr None, s1) else (Inr (Some items), s1)))"

text \<open>\<open>MediaFileUpload\<close> opens the local file before the request is made.\<close>

definition upload_google_drive ::
  "world \<Rightarrow> str \<Rightarrow> str \<Rightarrow> state \<Rightarrow> (py_error + str) \<times> state" where
  "upload_google_drive w filename directory_id s =
     (case files s filename of
        None \<Rightarrow> (Inl (Raised (py ''FileNotFoundError'')), s)
      | Some content \<Rightarrow>
          (case invoke w (FilesCreate filename directory_id) s of
             (Some e, s1) \<Rightarrow> (Inl e, s1)
           | (None, s1) \<Rightarrow>
               (let i = new_id w (drive s1)
                in (Inr i,
                    s1\<lparr>drive := drive s1 @
                      [\<lparr>file_id = i, file_name = filename,
                        mimeType = content_type w filename,
                        parents = [directory_id]\<rparr>]\<rparr>))))"

text \<open>
  Identifiers are unique at the provider; the model removes every entry that carries
  the identifier.
\<close>

definition delete_from_google_drive ::
  "world \<Rightarrow> str \<Rightarrow> state \<Rightarrow> (py_error + unit) \<times> state" where
  "delete_from_google_drive w i s =
     (case invoke w (FilesDelete i) s of
        (Some e, s1) \<Rightarrow> (Inl e, s1)
      | (None, s1) \<Rightarrow> (Inr (), s1\<lparr>drive := filter (\<lambda>f. file_id f \<noteq> i) (drive s1)\<rparr>))"

subsection \<open>The calls of \<open>main\<close> into the libraries\<close>

definition getenv :: "world \<Rightarrow> str \<Rightarrow> str option" where
  "getenv w key = environ w key"

definition getenv_default :: "world \<Rightarrow> str \<Rightarrow> str \<Rightarrow> str" where
  "getenv_default w key dflt = (case environ w key of None \<Rightarrow> dflt | Some v \<Rightarrow> v)"

text \<open>
  The truth value \<open>assert\<close> gives to the result of \<open>os.getenv\<close>: an unset variable
  and an empty one both fail. Assertions are enabled, as they are when the script is run
  by its interpreter line.
\<close>

definition truthy :: "str option \<Rightarrow> bool" where
  "truthy v = (case v of None \<Rightarrow> False | Some x \<Rightarrow> x \<noteq> [])"

definition load_credentials :: "world \<Rightarrow> state \<Rightarrow> (py_error + unit) \<times> state" where
  "load_credentials w s =
     (case invoke w LoadCredentials s of
        (Some e, s1) \<Rightarrow> (Inl e, s1)
      | (None, s1) \<Rightarrow> (Inr (), s1))"

definition get_all_pages_by_label ::
  "world \<Rightarrow> str \<Rightarrow> state \<Rightarrow> (py_error + page list) \<times> state" where
  "get_all_pages_by_label w label s =
     (case invoke w (GetAllPagesByLabel label) s of
        (Some e, s1) \<Rightarrow> (Inl e, s1)
      | (None, s1) \<Rightarrow> (Inr (take 50 (labelled w label)), s1))"

definition get_page_as_pdf :: "world \<Rightarrow> str \<Rightarrow> state \<Rightarrow> (py_error + nat list) \<times> state" where
  "get_page_as_pdf w i s =
     (case invoke w (GetPageAsPdf i) s of
        (Some e, s1) \<Rightarrow> (Inl e, s1)
      | (None, s1) \<Rightarrow> (Inr (rendered w i), s1))"

text \<open>
  Both wiki requests ask for at most 50 pages and for one PDF. \<open>open(path, "wb")\<close> and
  \<open>write(content)\<close>: the file holds \<open>content\<close>, whatever it held before.
\<close>

definition write_file :: "world \<Rightarrow> str \<Rightarrow> nat list \<Rightarrow> state \<Rightarrow> (py_error + unit) \<times> state" where
  "write_file w path content s =
     (case invoke w (WriteFile path content) s of
        (Some e, s1) \<Rightarrow> (Inl e, s1)
      | (None, s1) \<Rightarrow> (Inr (), s1\<lparr>files := (files s1)(path \<mapsto> content)\<rparr>))"

subsection \<open>The orchestrator\<close>

definition folder_type :: str where
  "folder_type = py ''application/vnd.google-apps.folder''"

text \<open>\<open>for drive_file in drive_files: delete_from_google_drive(drive_file["id"], ...)\<close>\<close>

fun purge :: "world \<Rightarrow> drive_file list \<Rightarrow> state \<Rightarrow> (py_error + unit) \<times> state" where
  "purge w [] s = (Inr (), s)"
| "purge w (drive_file # drive_files) s =
     (case delete_from_google_drive w (file_id drive_file) s of
        (Inl e, s1) \<Rightarrow> (Inl e, s1)
      | (Inr _, s1) \<Rightarrow> purge w drive_files s1)"

text \<open>
  The body of \<open>for page in pages:\<close> renders the page, writes the PDF under \<open>/tmp\<close>
  and uploads it; the upload is given the name of the file, and the bytes the provider
  receives are not part of the model. The loop stops at the first exception.
\<close>

definition copy_page :: "world \<Rightarrow> str \<Rightarrow> page \<Rightarrow> state \<Rightarrow> (py_error + unit) \<times> state" where
  "copy_page w directory_id page s =
     (case get_page_as_pdf w (page_id page) s of
        (Inl e, s1) \<Rightarrow> (Inl e, s1)
      | (Inr content, s1) \<Rightarrow>
          (let title = slugify (unicode w) (title page);
               path = py ''/tmp/'' @ title @ py ''.pdf''
           in case write_file w path content s1 of
                (Inl e, s2) \<Rightarrow> (Inl e, s2)
              | (Inr _, s2) \<Rightarrow>
                  (case upload_google_drive w path directory_id s2 of
                     (Inl e, s3) \<Rightarrow> (Inl e, s3)
                   | (Inr _, s3) \<Rightarrow> (Inr (), s3))))"

fun copy_pages :: "world \<Rightarrow> str \<Rightarrow> page list \<Rightarrow> state \<Rightarrow> (py_error + unit) \<times> state" where
  "copy_pages w directory_id [] s = (Inr (), s)"
| "copy_pages w directory_id (page # pages) s =
     (case copy_page w directory_id page s of
        (Inl e, s1) \<Rightarrow> (Inl e, s1)
      | (Inr _, s1) \<Rightarrow> copy_pages w directory_id pages s1)"

text \<open>
  \<open>filter\<close> over \<open>None\<close> raises \<open>TypeError\<close> when it is built, before the first
  delete.
\<close>

definition main :: "world \<Rightarrow> state \<Rightarrow> (py_error + unit) \<times> state" where
  "main w s =
     (let jira_domain = getenv w (py ''CONFLUENCE_DOMAIN'');
          jira_token = getenv w (py ''JIRA_TOKEN'');
          jira_user = getenv w (py ''JIRA_USER'');
          confluence_label = getenv_default w (py ''CONFLUENCE_LABEL'') (py ''jam'');
          directory_id = getenv_default w (py ''GOOGLE_DRIVE_FOLDER_ID'')
                           (py ''1HsnsarPvc7UyD-fgvCcdx_Zm9FBhv4mM'')
      in if \<not> truthy jira_domain then
           (Inl (AssertionError (py ''CONFLUENCE_DOMAIN not set as environmental variable'')), s)
         else if \<not> truthy jira_token then
           (Inl (AssertionError (py ''JIRA_TOKEN not set as environmental variable'')), s)
         else if \<not> truthy jira_user then
           (Inl (AssertionError (py ''JIRA_USER not set as environmental variable'')), s)
         else if confluence_label = [] then
           (Inl (AssertionError (py ''CONFLUENCE_LABEL not set as environmental variable'')), s)
         else
           (case load_credentials w s of
              (Inl e, s1) \<Rightarrow> (Inl e, s1)
            | (Inr _, s1) \<Rightarrow>
                (case get_all_pages_by_label w confluence_label s1 of
                   (Inl e, s2) \<Rightarrow> (Inl e, s2)
                 | (Inr pages, s2) \<Rightarrow>
                     (case read_google_drive w s2 of
                        (Inl e, s3) \<Rightarrow> (Inl e, s3)
                      | (Inr None, s3) \<Rightarrow> (Inl TypeError, s3)
                      | (Inr (Some items), s3) \<Rightarrow>
                          (let drive_files = filter (\<lambda>x. mimeType x \<noteq> folder_type) items
                           in case purge w drive_files s3 of
                                (Inl e, s4) \<Rightarrow> (Inl e, s4)
                              | (Inr _, s4) \<Rightarrow> copy_pages w directory_id pages s4)))))"

text \<open>
  The label and the target folder of a run, as \<open>main\<close> reads them, and the calls a run
  adds to those made before it.
\<close>

definition label_of :: "world \<Rightarrow> str" where
  "label_of w = getenv_default w (py ''CONFLUENCE_LABEL'') (py ''jam'')"

definition target_folder :: "world \<Rightarrow> str" where
  "target_folder w =
     getenv_default w (py ''GOOGLE_DRIVE_FOLDER_ID'') (py ''1HsnsarPvc7UyD-fgvCcdx_Zm9FBhv4mM'')"

definition run_calls :: "world \<Rightarrow> state \<Rightarrow> call list" where
  "run_calls w s = drop (length (calls s)) (calls (snd (main w s)))"

text \<open>The local path of a page's PDF, and the four assertions of \<open>main\<close>.\<close>

definition tmp_path :: "world \<Rightarrow> page \<Rightarrow> str" where
  "tmp_path w p = py ''/tmp/'' @ slugify (unicode w) (title p) @ py ''.pdf''"

definition configured :: "world \<Rightarrow> bool" where
  "configured w \<longleftrightarrow>
     truthy (getenv w (py ''CONFLUENCE_DOMAIN'')) \<and> truthy (getenv w (py ''JIRA_TOKEN''))
     \<and> truthy (getenv w (py ''JIRA_USER'')) \<and> label_of w \<noteq> []"

subsection \<open>A small world for the examples\<close>

definition example_environ :: "str \<rightharpoonup> str" where
  "example_environ =
     [py ''CONFLUENCE_DOMAIN'' \<mapsto> py ''example'',
      py ''JIRA_TOKEN'' \<mapsto> py ''secret'',
      py ''JIRA_USER'' \<mapsto> py ''bot'']"

definition example_world :: "page list \<Rightarrow> world" where
  "example_world ps =
     \<lparr>environ = example_environ, unicode = ucd_excerpt,
      labelled = (\<lambda>l. if l = py ''jam'' then ps else []),
      rendered = (\<lambda>i. py ''PDF of '' @ i),
      raises = (\<lambda>c s. None),
      new_id = (\<lambda>d. py ''n'' @ replicate (length d) 49),
      content_type = (\<lambda>n. py ''application/pdf'')\<rparr>"

definition example_state :: "drive_file list \<Rightarrow> state" where
  "example_state d = \<lparr>drive = d, files = Map.empty, calls = []\<rparr>"

definition folder_entry :: drive_file where
  "folder_entry =
     \<lparr>file_id = py ''d0'', file_name = py ''jam'', mimeType = folder_type, parents = []\<rparr>"

definition inside_file :: drive_file where
  "inside_file =
     \<lparr>file_id = py ''f1'', file_name = py ''/tmp/old.pdf'',
      mimeType = py ''application/pdf'',
      parents = [py ''1HsnsarPvc7UyD-fgvCcdx_Zm9FBhv4mM'']\<rparr>"

definition outside_file :: drive_file where
  "outside_file =
     \<lparr>file_id = py ''f2'', file_name = py ''report.txt'', mimeType = py ''text/plain'',
      parents = [py ''another-folder'']\<rparr>"

section \<open>Properties of the slug transform\<close>

lemma decompose_ascii: "c < 128 \<Longrightarrow> decompose t c = [c]"
  by (simp add: decompose_def)

lemma ccc_ascii: "c < 128 \<Longrightarrow> ccc t c = 0"
  by (simp add: ccc_def)

subsection \<open>Normalisation and the ASCII filter\<close>

lemma filter_sort_key_none:
  "\<forall>x\<in>set xs. \<not> P x \<Longrightarrow> filter P (sort_key f xs) = []"
  by (simp add: filter_empty_conv)

lemma ascii_canonical_order:
  "filter (\<lambda>c. c < 128) (canonical_order t s) = filter (\<lambda>c. c < 128) s"
proof (induction t s rule: canonical_order.induct)
  case (1 t)
  show ?case by simp
next
  case (2 t c cs)
  show ?case
  proof (cases "ccc t c = 0")
    case True
    with 2 show ?thesis by simp
  next
    case False
    let ?Q = "\<lambda>d. ccc t d \<noteq> 0"
    have run: "\<forall>x\<in>set (c # takeWhile ?Q cs). \<not> x < 128"
      using False by (auto simp: ccc_def dest!: set_takeWhileD split: if_splits)
    have a: "filter (\<lambda>c. c < 128) (sort_key (ccc t) (c # takeWhile ?Q cs)) = []"
      using run by (rule filter_sort_key_none)
    have b: "filter (\<lambda>c. c < 128) (c # takeWhile ?Q cs) = []"
      using run by (simp add: filter_empty_conv)
    have "filter (\<lambda>c. c < 128) (c # cs)
        = filter (\<lambda>c. c < 128) ((c # takeWhile ?Q cs) @ dropWhile ?Q cs)"
      by simp
    also have "\<dots> = filter (\<lambda>c. c < 128) (dropWhile ?Q cs)"
      unfolding filter_append b by simp
    finally have c: "filter (\<lambda>c. c < 128) (c # cs) = filter (\<lambda>c. c < 128) (dropWhile ?Q cs)" .
    have "filter (\<lambda>c. c < 128) (canonical_order t (c # cs))
        = filter (\<lambda>c. c < 128) (canonical_order t (dropWhile ?Q cs))"
      using False a by simp
    with 2(2)[OF False] c show ?thesis by simp
  qed
qed

lemma canonical_order_ascii:
  "\<forall>c\<in>set s. c < 128 \<Longrightarrow> canonical_order t s = s"
  by (induction s) (simp_all add: ccc_def)

lemma concat_decompose_ascii:
  "\<forall>c\<in>set s. c < 128 \<Longrightarrow> concat (map (decompose t) s) = s"
  by (induction s) (simp_all add: decompose_def)

lemma normalize_NFKD_ascii:
  "\<forall>c\<in>set s. c < 128 \<Longrightarrow> normalize_NFKD t s = s"
  by (simp add: normalize_NFKD_def concat_decompose_ascii canonical_order_ascii)

lemma encode_normalize:
  "encode_ascii_ignore (normalize_NFKD t s) = filter (\<lambda>c. c < 128) (concat (map (decompose t) s))"
  by (simp add: encode_ascii_ignore_def normalize_NFKD_def ascii_canonical_order)

subsection \<open>Runs of separators and the strip\<close>

lemma single_hyphens_tl: "single_hyphens (c # cs) \<Longrightarrow> single_hyphens cs"
  by (cases cs) simp_all

lemma single_hyphens_append:
  "single_hyphens (a @ b) \<Longrightarrow> single_hyphens a \<and> single_hyphens b"
proof (induction a rule: single_hyphens.induct)
  case 1
  then show ?case by simp
next
  case (2 c)
  then show ?case by (auto dest: single_hyphens_tl)
next
  case (3 c d cs)
  then show ?case by simp
qed

lemma sub_runs_start:
  "\<not> is_sep c \<Longrightarrow> sub_runs (c # cs) = c # sub_runs cs"
  by simp

lemma sub_runs_set:
  "x \<in> set (sub_runs v) \<Longrightarrow> x = 45 \<or> (x \<in> set v \<and> \<not> is_sep x)"
proof (induction v arbitrary: x rule: sub_runs.induct)
  case 1
  then show ?case by simp
next
  case (2 c cs)
  show ?case
  proof (cases "is_sep c")
    case True
    with 2 show ?thesis by (auto dest: set_dropWhileD)
  next
    case False
    with 2 show ?thesis by auto
  qed
qed

lemma sub_runs_not_hyphen_first:
  "v = [] \<or> \<not> is_sep (hd v) \<Longrightarrow> sub_runs v = [] \<or> hd (sub_runs v) \<noteq> 45"
  by (cases v) (auto simp: is_sep_def)

lemma dropWhile_first: "dropWhile P xs = [] \<or> \<not> P (hd (dropWhile P xs))"
  using hd_dropWhile by blast

lemma single_hyphens_Cons:
  "single_hyphens v \<Longrightarrow> (v = [] \<or> hd v \<noteq> 45) \<Longrightarrow> single_hyphens (c # v)"
  by (cases v) auto

lemma single_hyphens_Cons':
  "single_hyphens v \<Longrightarrow> c \<noteq> 45 \<Longrightarrow> single_hyphens (c # v)"
  by (cases v) auto

lemma single_hyphens_sub_runs: "single_hyphens (sub_runs v)"
proof (induction v rule: sub_runs.induct)
  case 1
  show ?case by simp
next
  case (2 c cs)
  show ?case
  proof (cases "is_sep c")
    case True
    have "sub_runs (dropWhile is_sep cs) = [] \<or> hd (sub_runs (dropWhile is_sep cs)) \<noteq> 45"
      by (rule sub_runs_not_hyphen_first) (rule dropWhile_first)
    with 2(1)[OF True] True show ?thesis
      by (simp add: single_hyphens_Cons)
  next
    case False
    then have "c \<noteq> 45" by (simp add: is_sep_def)
    with 2(2)[OF False] False show ?thesis
      by (simp add: single_hyphens_Cons')
  qed
qed

lemma sub_runs_id:
  "\<forall>c\<in>set v. \<not> is_space c \<Longrightarrow> single_hyphens v \<Longrightarrow> sub_runs v = v"
proof (induction v rule: single_hyphens.induct)
  case 1
  show ?case by simp
next
  case (2 c)
  then show ?case by (simp add: is_sep_def)
next
  case (3 c d cs)
  then have ih: "sub_runs (d # cs) = d # cs" by simp
  from 3 have "\<not> (is_sep c \<and> is_sep d)" by (auto simp: is_sep_def)
  moreover from 3 have "is_sep c \<Longrightarrow> c = 45" by (simp add: is_sep_def)
  ultimately show ?case using ih by (cases "is_sep c") auto
qed

lemma strip_decomp: "\<exists>a b. v = a @ strip cs v @ b"
proof -
  let ?P = "\<lambda>c. c \<in> set cs"
  let ?v1 = "dropWhile ?P v"
  have "rev ?v1 = takeWhile ?P (rev ?v1) @ dropWhile ?P (rev ?v1)" by simp
  then have "?v1 = rev (dropWhile ?P (rev ?v1)) @ rev (takeWhile ?P (rev ?v1))"
    by (metis rev_append rev_rev_ident)
  then have "v = takeWhile ?P v @ strip cs v @ rev (takeWhile ?P (rev ?v1))"
    by (metis strip_def takeWhile_dropWhile_id)
  then show ?thesis by blast
qed

lemma strip_set: "set (strip cs v) \<subseteq> set v"
proof -
  obtain a b where "v = a @ strip cs v @ b" using strip_decomp by blast
  then have "set v = set a \<union> set (strip cs v) \<union> set b" by (metis set_append Un_assoc)
  then show ?thesis by blast
qed

lemma strip_single_hyphens: "single_hyphens v \<Longrightarrow> single_hyphens (strip cs v)"
proof -
  assume h: "single_hyphens v"
  obtain a b where "v = a @ strip cs v @ b" using strip_decomp by blast
  with h have "single_hyphens (a @ strip cs v @ b)" by simp
  then show ?thesis by (blast dest: single_hyphens_append)
qed

lemma strip_last: "strip cs v \<noteq> [] \<Longrightarrow> last (strip cs v) \<notin> set cs"
proof -
  let ?P = "\<lambda>c. c \<in> set cs"
  assume "strip cs v \<noteq> []"
  then have ne: "dropWhile ?P (rev (dropWhile ?P v)) \<noteq> []" by (simp add: strip_def)
  then have "\<not> ?P (hd (dropWhile ?P (rev (dropWhile ?P v))))" by (rule hd_dropWhile)
  with ne show ?thesis by (simp add: strip_def last_rev)
qed

lemma strip_hd: "strip cs v \<noteq> [] \<Longrightarrow> hd (strip cs v) \<notin> set cs"
proof -
  let ?P = "\<lambda>c. c \<in> set cs"
  let ?v1 = "dropWhile ?P v"
  assume ne: "strip cs v \<noteq> []"
  have "rev ?v1 = takeWhile ?P (rev ?v1) @ dropWhile ?P (rev ?v1)" by simp
  then have "?v1 = rev (dropWhile ?P (rev ?v1)) @ rev (takeWhile ?P (rev ?v1))"
    by (metis rev_append rev_rev_ident)
  then have eq: "?v1 = strip cs v @ rev (takeWhile ?P (rev ?v1))" by (simp add: strip_def)
  with ne have "hd ?v1 = hd (strip cs v)" by (metis hd_append2)
  moreover from eq ne have "?v1 \<noteq> []" by (metis append_is_Nil_conv)
  then have "\<not> ?P (hd ?v1)" by (rule hd_dropWhile)
  ultimately show ?thesis by simp
qed

lemma strip_id:
  "v = [] \<or> (hd v \<notin> set cs \<and> last v \<notin> set cs) \<Longrightarrow> strip cs v = v"
proof (cases v)
  case Nil
  then show ?thesis by (simp add: strip_def)
next
  case (Cons c w)
  assume "v = [] \<or> (hd v \<notin> set cs \<and> last v \<notin> set cs)"
  with Cons have h: "c \<notin> set cs" and l: "last v \<notin> set cs" by auto
  from Cons h have a: "dropWhile (\<lambda>c. c \<in> set cs) v = v" by simp
  from Cons have "rev v \<noteq> []" by simp
  moreover from Cons l have "hd (rev v) \<notin> set cs" by (metis hd_rev list.distinct(1))
  ultimately have "dropWhile (\<lambda>c. c \<in> set cs) (rev v) = rev v"
    by (cases "rev v") auto
  with a show ?thesis by (simp add: strip_def)
qed

subsection \<open>The shape of a slug\<close>

lemma lower_class:
  "c < 128 \<Longrightarrow> is_word (lower c) \<or> is_space (lower c) \<or> lower c = 45
     \<Longrightarrow> is_slug_word (lower c) \<or> is_sep (lower c)"
  by (auto simp: lower_def is_word_def is_space_def is_sep_def is_slug_word_def
      is_lower_alnum_def split: if_splits)

lemma sub_non_word_lower_set:
  assumes "c \<in> set (sub_non_word (map lower (encode_ascii_ignore v)))"
  shows "is_slug_word c \<or> is_sep c"
proof -
  from assms obtain d where "d \<in> set v" "d < 128" "c = lower d"
    and "is_word c \<or> is_space c \<or> c = 45"
    by (auto simp: sub_non_word_def encode_ascii_ignore_def)
  then show ?thesis using lower_class by blast
qed

lemma slugify_chars:
  assumes "c \<in> set (slugify t x)"
  shows "is_slug_word c \<or> c = 45"
proof -
  let ?v2 = "sub_non_word (map lower (encode_ascii_ignore (normalize_NFKD t x)))"
  from assms have "c \<in> set (sub_runs ?v2)"
    using strip_set by (auto simp: slugify_def Let_def)
  then have "c = 45 \<or> (c \<in> set ?v2 \<and> \<not> is_sep c)" by (rule sub_runs_set)
  then show ?thesis using sub_non_word_lower_set by blast
qed

lemma slugify_single_hyphens: "single_hyphens (slugify t x)"
  by (simp add: slugify_def Let_def strip_single_hyphens single_hyphens_sub_runs)

lemma slugify_ends:
  assumes "slugify t x \<noteq> []"
  shows "hd (slugify t x) \<noteq> 45 \<and> hd (slugify t x) \<noteq> 95
       \<and> last (slugify t x) \<noteq> 45 \<and> last (slugify t x) \<noteq> 95"
proof -
  let ?r = "sub_runs (sub_non_word (map lower (encode_ascii_ignore (normalize_NFKD t x))))"
  have eq: "slugify t x = strip [45, 95] ?r" by (simp add: slugify_def Let_def)
  with assms have ne: "strip [45, 95] ?r \<noteq> []" by simp
  from strip_hd[OF ne] strip_last[OF ne] eq show ?thesis by simp
qed

lemma slug_word_not_space: "is_slug_word c \<Longrightarrow> \<not> is_space c"
  by (auto simp: is_slug_word_def is_lower_alnum_def is_space_def)

lemma slug_word_ascii: "is_slug_word c \<or> c = 45 \<Longrightarrow> c < 128"
  by (auto simp: is_slug_word_def is_lower_alnum_def)

lemma slug_word_lower: "is_slug_word c \<or> c = 45 \<Longrightarrow> lower c = c"
  by (auto simp: is_slug_word_def is_lower_alnum_def lower_def)

lemma slug_word_kept: "is_slug_word c \<or> c = 45 \<Longrightarrow> is_word c \<or> is_space c \<or> c = 45"
  by (auto simp: is_slug_word_def is_lower_alnum_def is_word_def)

lemma slugify_fixed:
  assumes chars: "\<forall>c\<in>set r. is_slug_word c \<or> c = 45"
    and single: "single_hyphens r"
    and ends: "r = [] \<or> (hd r \<notin> set [45, 95] \<and> last r \<notin> set [45, 95])"
  shows "slugify t r = r"
proof -
  from chars have "\<forall>c\<in>set r. c < 128" using slug_word_ascii by blast
  then have a: "encode_ascii_ignore (normalize_NFKD t r) = r"
    by (simp add: normalize_NFKD_ascii encode_ascii_ignore_def)
  from chars have b: "map lower r = r"
    using slug_word_lower by (simp add: map_idI)
  from chars have c: "sub_non_word r = r"
    using slug_word_kept by (simp add: sub_non_word_def)
  from chars have "\<forall>c\<in>set r. \<not> is_space c"
    using slug_word_not_space by (auto simp: is_space_def)
  then have d: "sub_runs r = r" using single by (rule sub_runs_id)
  from ends have e: "strip [45, 95] r = r" by (rule strip_id)
  show ?thesis by (simp add: slugify_def Let_def a b c d e)
qed

lemma match_segments_intro:
  assumes "\<not> A 45"
  shows "r \<noteq> [] \<Longrightarrow> \<forall>c\<in>set r. A c \<or> c = 45 \<Longrightarrow> single_hyphens r
     \<Longrightarrow> hd r \<noteq> 45 \<Longrightarrow> last r \<noteq> 45 \<Longrightarrow> match_segments A r"
proof (induction A r rule: match_segments.induct)
  case (1 A)
  then show ?case by simp
next
  case (2 A c)
  then show ?case by auto
next
  case (3 A c d cs)
  show ?case
  proof (cases "d = 45")
    case True
    with 3(7) have ne: "cs \<noteq> []" by auto
    with 3(5) True have "hd cs \<noteq> 45" by (cases cs) auto
    moreover from 3(5) have "single_hyphens cs" by (auto dest: single_hyphens_tl)
    moreover from ne 3(7) have "last cs \<noteq> 45" by simp
    moreover from 3(4) have "\<forall>c\<in>set cs. A c \<or> c = 45" by simp
    ultimately have "match_segments A cs" using 3(1)[OF True ne] by simp
    with 3(4,6) True show ?thesis by auto
  next
    case False
    from 3(5) have "single_hyphens (d # cs)" by simp
    moreover from 3(7) have "last (d # cs) \<noteq> 45" by simp
    moreover from 3(4) have "\<forall>c\<in>set (d # cs). A c \<or> c = 45" by simp
    ultimately have "match_segments A (d # cs)" using 3(2)[OF False] False by simp
    with 3(4,6) False show ?thesis by auto
  qed
qed

subsection \<open>The matcher and the regular expression\<close>

lemma join_Cons: "join ((c # g) # gs) = c # join (g # gs)"
  by (cases gs) simp_all

lemma join_segments: "gs \<noteq> [] \<Longrightarrow> join (g # gs) = g @ 45 # join gs"
  by (cases gs) simp_all

lemma match_segments_one:
  "g \<noteq> [] \<Longrightarrow> \<forall>c\<in>set g. A c \<Longrightarrow> \<not> A 45 \<Longrightarrow> match_segments A g"
  by (induction A g rule: match_segments.induct) auto

lemma match_segments_more:
  "g \<noteq> [] \<Longrightarrow> \<forall>c\<in>set g. A c \<Longrightarrow> \<not> A 45 \<Longrightarrow> match_segments A r
     \<Longrightarrow> match_segments A (g @ 45 # r)"
  by (induction A g rule: match_segments.induct) auto

lemma match_segments_of_join:
  assumes "\<not> A 45"
  shows "gs \<noteq> [] \<Longrightarrow> \<forall>g\<in>set gs. g \<noteq> [] \<and> (\<forall>c\<in>set g. A c)
     \<Longrightarrow> match_segments A (join gs)"
proof (induction gs rule: join.induct)
  case 1
  then show ?case by simp
next
  case (2 g)
  then show ?case using assms by (simp add: match_segments_one)
next
  case (3 g h gs)
  then have "match_segments A (join (h # gs))" by simp
  with 3(3) assms show ?case by (simp add: match_segments_more)
qed

lemma join_of_match_segments:
  assumes "\<not> A 45"
  shows "match_segments A s
     \<Longrightarrow> \<exists>gs. gs \<noteq> [] \<and> (\<forall>g\<in>set gs. g \<noteq> [] \<and> (\<forall>c\<in>set g. A c)) \<and> s = join gs"
proof (induction A s rule: match_segments.induct)
  case (1 A)
  then show ?case by simp
next
  case (2 A c)
  then have "[[c]] \<noteq> [] \<and> (\<forall>g\<in>set [[c]]. g \<noteq> [] \<and> (\<forall>c\<in>set g. A c)) \<and> [c] = join [[c]]"
    by simp
  then show ?case by blast
next
  case (3 A c d cs)
  from 3(3) have c: "A c" by simp
  show ?case
  proof (cases "d = 45")
    case True
    with 3(3) have "match_segments A cs" by simp
    from 3(1)[OF True this] obtain gs where
      gs: "gs \<noteq> []" "\<forall>g\<in>set gs. g \<noteq> [] \<and> (\<forall>c\<in>set g. A c)" "cs = join gs" by blast
    with c True have "[c] # gs \<noteq> [] \<and> (\<forall>g\<in>set ([c] # gs). g \<noteq> [] \<and> (\<forall>c\<in>set g. A c))
        \<and> c # d # cs = join ([c] # gs)"
      by (simp add: join_segments)
    then show ?thesis by blast
  next
    case False
    with 3(3) have "match_segments A (d # cs)" by simp
    from 3(2)[OF False this] obtain gs where
      gs: "gs \<noteq> []" "\<forall>g\<in>set gs. g \<noteq> [] \<and> (\<forall>c\<in>set g. A c)" "d # cs = join gs" by blast
    then obtain g hs where split: "gs = g # hs" by (cases gs) auto
    with gs have "g \<noteq> []" by simp
    with gs(3) split have "join ((c # g) # hs) = c # d # cs"
      by (simp add: join_Cons)
    with c gs(2) split have "(c # g) # hs \<noteq> []
        \<and> (\<forall>g\<in>set ((c # g) # hs). g \<noteq> [] \<and> (\<forall>c\<in>set g. A c))
        \<and> c # d # cs = join ((c # g) # hs)"
      by simp
    then show ?thesis by blast
  qed
qed

lemma match_segments_join:
  assumes "\<not> A 45"
  shows "match_segments A s \<longleftrightarrow>
    (\<exists>gs. gs \<noteq> [] \<and> (\<forall>g\<in>set gs. g \<noteq> [] \<and> (\<forall>c\<in>set g. A c)) \<and> s = join gs)"
  using assms match_segments_of_join[of A] join_of_match_segments[of A s] by blast

subsection \<open>Examples\<close>

text \<open>
  C9. Applied to \<open>Q3 Planning Notes!!\<close>, the slug transform returns
  \<open>q3-planning-notes\<close>.
\<close>

theorem slugify_q3_planning_notes:
  "slugify t (py ''Q3 Planning Notes!!'') = py ''q3-planning-notes''"
  by (simp add: slugify_def normalize_NFKD_def encode_ascii_ignore_def decompose_def
      ccc_def lower_def sub_non_word_def is_word_def is_space_def is_sep_def strip_def)

text \<open>
  C2, as amended. The slug keeps underscores (the first substitution keeps \<open>\w\<close>, which
  contains the underscore), so it need not match \<open>^[a-z0-9]+(-[a-z0-9]+)*$\<close>. For every
  input the slug is empty or matches \<open>^[a-z0-9_]+(-[a-z0-9_]+)*$\<close> with a first and a
  last character in \<open>[a-z0-9]\<close>: it never starts or ends with a hyphen or an underscore,
  and it contains no whitespace.
\<close>

theorem slugify_shape:
  "(slugify t x = [] \<or>
      (match_segments is_slug_word (slugify t x)
       \<and> is_lower_alnum (hd (slugify t x)) \<and> is_lower_alnum (last (slugify t x))))
   \<and> (\<forall>c\<in>set (slugify t x). \<not> is_space c)"
proof -
  let ?r = "slugify t x"
  have chars: "\<forall>c\<in>set ?r. is_slug_word c \<or> c = 45"
    using slugify_chars by blast
  have space: "\<forall>c\<in>set ?r. \<not> is_space c"
    using chars slug_word_not_space by (auto simp: is_space_def)
  have shape: "match_segments is_slug_word ?r
      \<and> is_lower_alnum (hd ?r) \<and> is_lower_alnum (last ?r)" if ne: "?r \<noteq> []"
  proof -
    from slugify_ends[OF ne] have ends: "hd ?r \<noteq> 45" "hd ?r \<noteq> 95" "last ?r \<noteq> 45" "last ?r \<noteq> 95"
      by simp_all
    have "\<not> is_slug_word 45" by (simp add: is_slug_word_def is_lower_alnum_def)
    then have m: "match_segments is_slug_word ?r"
      using ne chars slugify_single_hyphens ends(1,3) by (rule match_segments_intro)
    from ne have "hd ?r \<in> set ?r" "last ?r \<in> set ?r" by simp_all
    with chars have "is_slug_word (hd ?r) \<or> hd ?r = 45" "is_slug_word (last ?r) \<or> last ?r = 45"
      by blast+
    with ends have "is_lower_alnum (hd ?r)" "is_lower_alnum (last ?r)"
      by (simp_all add: is_slug_word_def)
    with m show ?thesis by simp
  qed
  from shape space show ?thesis by blast
qed

theorem slugify_shape_witness:
  "slugify ucd_excerpt (py '' a_b -- C-d_ '') = py ''a_b-c-d''
   \<and> match_segments is_slug_word (py ''a_b-c-d'')
   \<and> is_lower_alnum (hd (py ''a_b-c-d'')) \<and> is_lower_alnum (last (py ''a_b-c-d''))
   \<and> \<not> is_space 45"
  using slugify_shape [of ucd_excerpt "py '' a_b -- C-d_ ''"]
  by (simp add: slugify_def normalize_NFKD_def encode_ascii_ignore_def decompose_def
      ccc_def lower_def sub_non_word_def is_word_def is_space_def is_sep_def strip_def
      is_slug_word_def is_lower_alnum_def)

text \<open>
  C2 as the specification states it fails at \<open>a_b\<close>: the slug is \<open>a_b\<close>, which is not
  empty and does not match \<open>^[a-z0-9]+(-[a-z0-9]+)*$\<close>.
\<close>

theorem slugify_regex_counterexample:
  "slugify ucd_excerpt (py ''a_b'') = py ''a_b''
   \<and> \<not> (slugify ucd_excerpt (py ''a_b'') = []
         \<or> match_segments is_lower_alnum (slugify ucd_excerpt (py ''a_b'')))"
  by (simp add: slugify_def normalize_NFKD_def encode_ascii_ignore_def decompose_def
      ccc_def lower_def sub_non_word_def is_word_def is_space_def is_sep_def strip_def
      is_lower_alnum_def)

text \<open>
  C3, as amended. The input is two spaces, \<open>Caf\<close>, U+00E9, U+2014, \<open>D\<close>, U+00E9,
  \<open>j\<close>, U+00E0, a space, \<open>Vu\<close> and two spaces. The em dash has no ASCII part and is
  dropped with the accents, before any hyphen is made: with the database rows of the
  three code points, the slug is \<open>cafedeja-vu\<close>.
\<close>

theorem slugify_cafe_deja_vu:
  assumes "decomposition t 233 = [101, 769]"
    and "decomposition t 224 = [97, 768]"
    and "decomposition t 8212 = [8212]"
  shows "slugify t (py ''  Caf'' @ [233, 8212] @ py ''D'' @ [233] @ py ''j'' @ [224] @ py '' Vu  '')
         = py ''cafedeja-vu''"
  using assms
  by (simp add: slugify_def encode_normalize decompose_def
      lower_def sub_non_word_def is_word_def is_space_def is_sep_def strip_def)

theorem slugify_cafe_deja_vu_witness:
  "decomposition ucd_excerpt 233 = [101, 769]
   \<and> decomposition ucd_excerpt 224 = [97, 768]
   \<and> decomposition ucd_excerpt 8212 = [8212]
   \<and> slugify ucd_excerpt
        (py ''  Caf'' @ [233, 8212] @ py ''D'' @ [233] @ py ''j'' @ [224] @ py '' Vu  '')
      = py ''cafedeja-vu''"
  using slugify_cafe_deja_vu [of ucd_excerpt]
  by (simp add: ucd_excerpt_def)

text \<open>
  C3 as the specification states it fails: on the rows above the slug is not
  \<open>cafe-deja-vu\<close>.
\<close>

theorem slugify_cafe_deja_vu_counterexample:
  "slugify ucd_excerpt
     (py ''  Caf'' @ [233, 8212] @ py ''D'' @ [233] @ py ''j'' @ [224] @ py '' Vu  '')
   \<noteq> py ''cafe-deja-vu''"
  by (simp add: slugify_def normalize_NFKD_def encode_ascii_ignore_def decompose_def
      ccc_def ucd_excerpt_def lower_def sub_non_word_def is_word_def is_space_def
      is_sep_def strip_def)

text \<open>
  C7. The slug transform is a function of its input, defined on every string (both
  recursions terminate), and it is idempotent.
\<close>

theorem slugify_idempotent: "slugify t (slugify t x) = slugify t x"
proof (rule slugify_fixed)
  show "\<forall>c\<in>set (slugify t x). is_slug_word c \<or> c = 45"
    using slugify_chars by blast
  show "single_hyphens (slugify t x)" by (rule slugify_single_hyphens)
  show "slugify t x = [] \<or>
    (hd (slugify t x) \<notin> set [45, 95] \<and> last (slugify t x) \<notin> set [45, 95])"
    using slugify_ends by auto
qed

theorem slugify_idempotent_witness:
  "slugify ucd_excerpt (slugify ucd_excerpt (py '' a_b -- C-d_ '')) = py ''a_b-c-d''"
  using slugify_idempotent [of ucd_excerpt "py '' a_b -- C-d_ ''"]
  by (simp add: slugify_def normalize_NFKD_def encode_ascii_ignore_def decompose_def
      ccc_def lower_def sub_non_word_def is_word_def is_space_def is_sep_def strip_def)

section \<open>Properties of the orchestrator\<close>

subsection \<open>The operations, case by case\<close>

lemma delete_cases:
  "delete_from_google_drive w i s =
     (case raises w (FilesDelete i) s of
        Some e \<Rightarrow> (Inl e, s\<lparr>calls := calls s @ [FilesDelete i]\<rparr>)
      | None \<Rightarrow> (Inr (), s\<lparr>calls := calls s @ [FilesDelete i],
                           drive := filter (\<lambda>f. file_id f \<noteq> i) (drive s)\<rparr>))"
  by (simp add: delete_from_google_drive_def invoke_def split: option.splits)

lemma purge_calls:
  "\<exists>n. calls (snd (purge w fs s)) = calls s @ map (\<lambda>f. FilesDelete (file_id f)) (take n fs)"
proof (induction fs arbitrary: s)
  case Nil
  show ?case by simp
next
  case (Cons f fs)
  show ?case
  proof (cases "raises w (FilesDelete (file_id f)) s")
    case (Some e)
    then have "calls (snd (purge w (f # fs) s))
        = calls s @ map (\<lambda>f. FilesDelete (file_id f)) (take 1 (f # fs))"
      by (simp add: delete_cases)
    then show ?thesis by blast
  next
    case None
    let ?s1 = "s\<lparr>calls := calls s @ [FilesDelete (file_id f)],
                 drive := filter (\<lambda>g. file_id g \<noteq> file_id f) (drive s)\<rparr>"
    from None have step: "purge w (f # fs) s = purge w fs ?s1"
      by (simp add: delete_cases)
    from Cons.IH[of ?s1] obtain n where
      "calls (snd (purge w fs ?s1)) = calls ?s1 @ map (\<lambda>f. FilesDelete (file_id f)) (take n fs)"
      by blast
    with step have "calls (snd (purge w (f # fs) s))
        = calls s @ map (\<lambda>f. FilesDelete (file_id f)) (take (Suc n) (f # fs))"
      by simp
    then show ?thesis by blast
  qed
qed

lemma purge_files: "files (snd (purge w fs s)) = files s"
  by (induction fs arbitrary: s) (simp_all add: delete_cases split: option.splits)

lemma purge_drive_keeps:
  "f \<in> set (drive s) \<Longrightarrow> file_id f \<notin> file_id ` set fs
     \<Longrightarrow> f \<in> set (drive (snd (purge w fs s)))"
  by (induction fs arbitrary: s) (simp_all add: delete_cases split: option.splits)

lemma purge_ok:
  "\<forall>c s. raises w c s = None \<Longrightarrow>
   purge w fs s =
     (Inr (), s\<lparr>calls := calls s @ map (\<lambda>f. FilesDelete (file_id f)) fs,
               drive := filter (\<lambda>f. file_id f \<notin> file_id ` set fs) (drive s)\<rparr>)"
proof (induction fs arbitrary: s)
  case Nil
  show ?case by simp
next
  case (Cons f fs)
  have "filter (\<lambda>g. file_id g \<notin> file_id ` set fs) (filter (\<lambda>g. file_id g \<noteq> file_id f) (drive s))
      = filter (\<lambda>g. file_id g \<notin> file_id ` set (f # fs)) (drive s)"
    by (auto intro: filter_cong)
  with Cons show ?case by (simp add: delete_cases)
qed

lemma upload_cases:
  "upload_google_drive w filename directory_id s =
     (case files s filename of
        None \<Rightarrow> (Inl (Raised (py ''FileNotFoundError'')), s)
      | Some content \<Rightarrow>
          (case raises w (FilesCreate filename directory_id) s of
             Some e \<Rightarrow> (Inl e, s\<lparr>calls := calls s @ [FilesCreate filename directory_id]\<rparr>)
           | None \<Rightarrow>
               (Inr (new_id w (drive s)),
                s\<lparr>calls := calls s @ [FilesCreate filename directory_id],
                  drive := drive s @
                    [\<lparr>file_id = new_id w (drive s), file_name = filename,
                      mimeType = content_type w filename, parents = [directory_id]\<rparr>]\<rparr>)))"
  by (simp add: upload_google_drive_def invoke_def Let_def split: option.splits)

lemma pdf_cases:
  "get_page_as_pdf w i s =
     (case raises w (GetPageAsPdf i) s of
        Some e \<Rightarrow> (Inl e, s\<lparr>calls := calls s @ [GetPageAsPdf i]\<rparr>)
      | None \<Rightarrow> (Inr (rendered w i), s\<lparr>calls := calls s @ [GetPageAsPdf i]\<rparr>))"
  by (simp add: get_page_as_pdf_def invoke_def split: option.splits)

lemma write_cases:
  "write_file w path content s =
     (case raises w (WriteFile path content) s of
        Some e \<Rightarrow> (Inl e, s\<lparr>calls := calls s @ [WriteFile path content]\<rparr>)
      | None \<Rightarrow> (Inr (), s\<lparr>calls := calls s @ [WriteFile path content],
                           files := (files s)(path \<mapsto> content)\<rparr>))"
  by (simp add: write_file_def invoke_def split: option.splits)

lemma copy_page_cases:
  "copy_page w d p s =
     (let path = tmp_path w p; content = rendered w (page_id p);
          s1 = s\<lparr>calls := calls s @ [GetPageAsPdf (page_id p)]\<rparr>;
          s2 = s1\<lparr>calls := calls s1 @ [WriteFile path content]\<rparr>;
          s3 = s2\<lparr>files := (files s)(path \<mapsto> content)\<rparr>;
          s4 = s3\<lparr>calls := calls s3 @ [FilesCreate path d]\<rparr>
      in case raises w (GetPageAsPdf (page_id p)) s of
           Some e \<Rightarrow> (Inl e, s1)
         | None \<Rightarrow>
             (case raises w (WriteFile path content) s1 of
                Some e \<Rightarrow> (Inl e, s2)
              | None \<Rightarrow>
                  (case raises w (FilesCreate path d) s3 of
                     Some e \<Rightarrow> (Inl e, s4)
                   | None \<Rightarrow>
                       (Inr (), s4\<lparr>drive := drive s @
                          [\<lparr>file_id = new_id w (drive s), file_name = path,
                            mimeType = content_type w path, parents = [d]\<rparr>]\<rparr>))))"
  by (simp add: copy_page_def tmp_path_def pdf_cases write_cases upload_cases Let_def
      split: option.splits)

lemma copy_page_calls:
  "\<exists>evs. calls (snd (copy_page w d p s)) = calls s @ evs
      \<and> (\<forall>i. FilesDelete i \<notin> set evs)"
  by (simp add: copy_page_cases Let_def split: option.splits)

lemma copy_page_drive: "set (drive s) \<subseteq> set (drive (snd (copy_page w d p s)))"
  by (auto simp: copy_page_cases Let_def split: option.splits)

lemma copy_pages_calls:
  "\<exists>evs. calls (snd (copy_pages w d ps s)) = calls s @ evs
      \<and> (\<forall>i. FilesDelete i \<notin> set evs)"
proof (induction ps arbitrary: s)
  case Nil
  show ?case by simp
next
  case (Cons p ps)
  obtain r s1 where step: "copy_page w d p s = (r, s1)" by (cases "copy_page w d p s")
  from copy_page_calls[of w d p s] step obtain evs1 where
    e1: "calls s1 = calls s @ evs1" "\<forall>i. FilesDelete i \<notin> set evs1" by auto
  show ?case
  proof (cases r)
    case (Inl e)
    with step e1 show ?thesis by simp
  next
    case (Inr u)
    from Cons.IH[of s1] obtain evs2 where
      "calls (snd (copy_pages w d ps s1)) = calls s1 @ evs2" "\<forall>i. FilesDelete i \<notin> set evs2"
      by blast
    with e1 have "calls (snd (copy_pages w d ps s1)) = calls s @ (evs1 @ evs2)
        \<and> (\<forall>i. FilesDelete i \<notin> set (evs1 @ evs2))" by simp
    with step Inr show ?thesis by (simp del: append_assoc)
  qed
qed

lemma copy_pages_drive: "set (drive s) \<subseteq> set (drive (snd (copy_pages w d ps s)))"
proof (induction ps arbitrary: s)
  case Nil
  show ?case by simp
next
  case (Cons p ps)
  obtain r s1 where step: "copy_page w d p s = (r, s1)" by (cases "copy_page w d p s")
  with copy_page_drive[of s w d p] have a: "set (drive s) \<subseteq> set (drive s1)" by simp
  show ?case
  proof (cases r)
    case (Inl e)
    with step a show ?thesis by simp
  next
    case (Inr u)
    with step a Cons.IH[of s1] show ?thesis by auto
  qed
qed


lemma load_cases:
  "load_credentials w s =
     (case raises w LoadCredentials s of
        Some e \<Rightarrow> (Inl e, s\<lparr>calls := calls s @ [LoadCredentials]\<rparr>)
      | None \<Rightarrow> (Inr (), s\<lparr>calls := calls s @ [LoadCredentials]\<rparr>))"
  by (simp add: load_credentials_def invoke_def split: option.splits)

lemma pages_cases:
  "get_all_pages_by_label w l s =
     (case raises w (GetAllPagesByLabel l) s of
        Some e \<Rightarrow> (Inl e, s\<lparr>calls := calls s @ [GetAllPagesByLabel l]\<rparr>)
      | None \<Rightarrow> (Inr (take 50 (labelled w l)), s\<lparr>calls := calls s @ [GetAllPagesByLabel l]\<rparr>))"
  by (simp add: get_all_pages_by_label_def invoke_def split: option.splits)

lemma read_cases:
  "read_google_drive w s =
     (case raises w FilesList s of
        Some e \<Rightarrow> (Inl e, s\<lparr>calls := calls s @ [FilesList]\<rparr>)
      | None \<Rightarrow>
          (if take 50 (drive s) = [] then Inr None else Inr (Some (take 50 (drive s))),
           s\<lparr>calls := calls s @ [FilesList]\<rparr>))"
  by (simp add: read_google_drive_def invoke_def Let_def split: option.splits)

subsection \<open>The run, step by step\<close>

lemma main_unconfigured:
  "\<not> configured w \<Longrightarrow> \<exists>m. main w s = (Inl (AssertionError m), s)"
  unfolding main_def configured_def label_of_def Let_def
  by (auto simp only: if_False if_True not_not simp_thms split: if_splits)

lemma main_configured:
  "configured w \<Longrightarrow>
   main w s =
     (case load_credentials w s of
        (Inl e, s1) \<Rightarrow> (Inl e, s1)
      | (Inr _, s1) \<Rightarrow>
          (case get_all_pages_by_label w (label_of w) s1 of
             (Inl e, s2) \<Rightarrow> (Inl e, s2)
           | (Inr pages, s2) \<Rightarrow>
               (case read_google_drive w s2 of
                  (Inl e, s3) \<Rightarrow> (Inl e, s3)
                | (Inr None, s3) \<Rightarrow> (Inl TypeError, s3)
                | (Inr (Some items), s3) \<Rightarrow>
                    (let drive_files = filter (\<lambda>x. mimeType x \<noteq> folder_type) items
                     in case purge w drive_files s3 of
                          (Inl e, s4) \<Rightarrow> (Inl e, s4)
                        | (Inr _, s4) \<Rightarrow> copy_pages w (target_folder w) pages s4))))"
  unfolding main_def configured_def label_of_def target_folder_def Let_def
  by (simp only: if_False if_True not_not simp_thms)

lemma main_steps:
  assumes "configured w"
  shows "main w s =
     (let s1 = s\<lparr>calls := calls s @ [LoadCredentials]\<rparr>;
          s2 = s\<lparr>calls := calls s @ [LoadCredentials, GetAllPagesByLabel (label_of w)]\<rparr>;
          s3 = s\<lparr>calls := calls s @ [LoadCredentials, GetAllPagesByLabel (label_of w), FilesList]\<rparr>
      in case raises w LoadCredentials s of
           Some e \<Rightarrow> (Inl e, s1)
         | None \<Rightarrow>
             (case raises w (GetAllPagesByLabel (label_of w)) s1 of
                Some e \<Rightarrow> (Inl e, s2)
              | None \<Rightarrow>
                  (case raises w FilesList s2 of
                     Some e \<Rightarrow> (Inl e, s3)
                   | None \<Rightarrow>
                       if take 50 (drive s) = [] then (Inl TypeError, s3)
                       else
                         (case purge w (filter (\<lambda>x. mimeType x \<noteq> folder_type) (take 50 (drive s))) s3 of
                            (Inl e, s4) \<Rightarrow> (Inl e, s4)
                          | (Inr _, s4) \<Rightarrow>
                              copy_pages w (target_folder w) (take 50 (labelled w (label_of w))) s4))))"
  by (simp add: main_configured[OF assms] load_cases pages_cases read_cases Let_def
      split: option.splits)

lemma main_trace:
  assumes cfg: "configured w"
  shows "\<exists>pre n evs.
      calls (snd (main w s)) =
        calls s @ pre
        @ map (\<lambda>f. FilesDelete (file_id f))
            (take n (filter (\<lambda>x. mimeType x \<noteq> folder_type) (take 50 (drive s))))
        @ evs
      \<and> (\<forall>i. FilesDelete i \<notin> set pre) \<and> (\<forall>i. FilesDelete i \<notin> set evs)
      \<and> set pre \<subseteq> {LoadCredentials, GetAllPagesByLabel (label_of w), FilesList}
      \<and> (evs = [] \<or> (\<exists>s4. calls (snd (copy_pages w (target_folder w)
                 (take 50 (labelled w (label_of w))) s4)) = calls s4 @ evs))"
  (is "\<exists>pre n evs. ?T pre n evs")
proof -
  let ?dfs = "filter (\<lambda>x. mimeType x \<noteq> folder_type) (take 50 (drive s))"
  let ?pre = "[LoadCredentials, GetAllPagesByLabel (label_of w), FilesList]"
  let ?s1 = "s\<lparr>calls := calls s @ [LoadCredentials]\<rparr>"
  let ?s2 = "s\<lparr>calls := calls s @ [LoadCredentials, GetAllPagesByLabel (label_of w)]\<rparr>"
  let ?s3 = "s\<lparr>calls := calls s @ ?pre\<rparr>"
  let ?del = "\<lambda>f. FilesDelete (file_id f)"
  have early: ?thesis if "calls (snd (main w s)) = calls s @ pre" "set pre \<subseteq> set ?pre"
    for pre
  proof -
    from that have "?T pre 0 []" by auto
    then show ?thesis by blast
  qed
  obtain r4 s4 where p: "purge w ?dfs ?s3 = (r4, s4)" by (cases "purge w ?dfs ?s3")
  from purge_calls[of w ?dfs ?s3] p obtain n where
    c4: "calls s4 = calls s @ ?pre @ map ?del (take n ?dfs)" by auto
  let ?ps = "take 50 (labelled w (label_of w))"
  from copy_pages_calls[of w "target_folder w" ?ps s4] obtain evs where
    c5: "calls (snd (copy_pages w (target_folder w) ?ps s4)) = calls s4 @ evs"
      "\<forall>i. FilesDelete i \<notin> set evs" by blast
  show ?thesis
  proof (cases "raises w LoadCredentials s = None
      \<and> raises w (GetAllPagesByLabel (label_of w)) ?s1 = None
      \<and> raises w FilesList ?s2 = None \<and> take 50 (drive s) \<noteq> []")
    case False
    then consider "raises w LoadCredentials s \<noteq> None"
      | "raises w LoadCredentials s = None"
        "raises w (GetAllPagesByLabel (label_of w)) ?s1 \<noteq> None"
      | "raises w LoadCredentials s = None"
        "raises w (GetAllPagesByLabel (label_of w)) ?s1 = None"
        "raises w FilesList ?s2 \<noteq> None"
      | "raises w LoadCredentials s = None"
        "raises w (GetAllPagesByLabel (label_of w)) ?s1 = None"
        "raises w FilesList ?s2 = None" "take 50 (drive s) = []"
      by auto
    then show ?thesis
    proof cases
      case 1
      then have "calls (snd (main w s)) = calls s @ [LoadCredentials]"
        by (auto simp: main_steps[OF cfg] Let_def)
      then show ?thesis by (rule early) simp
    next
      case 2
      then have "calls (snd (main w s)) = calls s @ [LoadCredentials, GetAllPagesByLabel (label_of w)]"
        by (auto simp: main_steps[OF cfg] Let_def)
      then show ?thesis by (rule early) simp
    next
      case 3
      then have "calls (snd (main w s)) = calls s @ ?pre"
        by (auto simp: main_steps[OF cfg] Let_def)
      then show ?thesis by (rule early) simp
    next
      case 4
      then have "calls (snd (main w s)) = calls s @ ?pre"
        by (simp add: main_steps[OF cfg] Let_def)
      then show ?thesis by (rule early) simp
    qed
  next
    case True
    then have m: "main w s =
        (case purge w ?dfs ?s3 of (Inl e, s4) \<Rightarrow> (Inl e, s4)
         | (Inr _, s4) \<Rightarrow> copy_pages w (target_folder w) ?ps s4)"
      by (simp add: main_steps[OF cfg] Let_def)
    show ?thesis
    proof (cases r4)
      case (Inl e)
      with m p c4 have "?T ?pre n []" by simp
      then show ?thesis by blast
    next
      case (Inr u)
      from c5(1) have "\<exists>s4. calls (snd (copy_pages w (target_folder w) ?ps s4)) = calls s4 @ evs"
        by blast
      with Inr m p c4 c5 have "?T ?pre n evs" by simp
      then show ?thesis by blast
    qed
  qed
qed

lemma run_calls_unconfigured: "\<not> configured w \<Longrightarrow> run_calls w s = []"
  using main_unconfigured[of w s] by (auto simp: run_calls_def)

lemma run_calls_deletes:
  assumes "FilesDelete i \<in> set (run_calls w s)"
  shows "\<exists>x\<in>set (take 50 (drive s)). file_id x = i \<and> mimeType x \<noteq> folder_type"
proof -
  from assms have cfg: "configured w"
    using run_calls_unconfigured[of w s] by (cases "configured w") simp_all
  let ?dfs = "filter (\<lambda>x. mimeType x \<noteq> folder_type) (take 50 (drive s))"
  from main_trace[OF cfg, of s] obtain pre n evs where
    t: "calls (snd (main w s)) = calls s @ pre @ map (\<lambda>f. FilesDelete (file_id f)) (take n ?dfs) @ evs"
    and no: "\<forall>i. FilesDelete i \<notin> set pre" "\<forall>i. FilesDelete i \<notin> set evs"
    by blast
  from t have "run_calls w s = pre @ map (\<lambda>f. FilesDelete (file_id f)) (take n ?dfs) @ evs"
    by (simp add: run_calls_def)
  with assms no have "FilesDelete i \<in> set (map (\<lambda>f. FilesDelete (file_id f)) (take n ?dfs))"
    by auto
  then obtain x where "x \<in> set (take n ?dfs)" "file_id x = i" by auto
  then have "x \<in> set ?dfs" "file_id x = i" by (auto dest: in_set_takeD)
  then show ?thesis by auto
qed

lemma main_drive_keeps:
  assumes "f \<in> set (drive s)"
    and "file_id f \<notin> file_id ` set (filter (\<lambda>x. mimeType x \<noteq> folder_type) (take 50 (drive s)))"
  shows "f \<in> set (drive (snd (main w s)))"
proof (cases "configured w")
  case False
  then show ?thesis using main_unconfigured[of w s] assms(1) by auto
next
  case cfg: True
  let ?dfs = "filter (\<lambda>x. mimeType x \<noteq> folder_type) (take 50 (drive s))"
  let ?s3 = "s\<lparr>calls := calls s @ [LoadCredentials, GetAllPagesByLabel (label_of w), FilesList]\<rparr>"
  obtain r4 s4 where p: "purge w ?dfs ?s3 = (r4, s4)" by (cases "purge w ?dfs ?s3")
  from assms have "f \<in> set (drive (snd (purge w ?dfs ?s3)))"
    by (intro purge_drive_keeps) simp_all
  with p have k4: "f \<in> set (drive s4)" by simp
  then have k5: "f \<in> set (drive (snd (copy_pages w (target_folder w)
      (take 50 (labelled w (label_of w))) s4)))"
    using copy_pages_drive by blast
  show ?thesis
    using assms(1) p k4 k5
    by (cases r4) (auto simp: main_steps[OF cfg] Let_def split: option.splits)
qed

subsection \<open>Runs in which no call raises, and the example run\<close>

lemma main_ok:
  assumes cfg: "configured w" and ok: "\<forall>c s. raises w c s = None"
    and ne: "take 50 (drive s) \<noteq> []"
  shows "main w s =
     copy_pages w (target_folder w) (take 50 (labelled w (label_of w)))
       (s\<lparr>calls := calls s @ [LoadCredentials, GetAllPagesByLabel (label_of w), FilesList]
                    @ map (\<lambda>f. FilesDelete (file_id f))
                        (filter (\<lambda>x. mimeType x \<noteq> folder_type) (take 50 (drive s))),
          drive := filter (\<lambda>f. file_id f \<notin>
                      file_id ` set (filter (\<lambda>x. mimeType x \<noteq> folder_type) (take 50 (drive s))))
                    (drive s)\<rparr>)"
  using ok ne by (simp add: main_steps[OF cfg] Let_def purge_ok[OF ok])

lemma main_empty_listing:
  assumes cfg: "configured w" and ok: "\<forall>s. raises w LoadCredentials s = None"
    "\<forall>s. raises w (GetAllPagesByLabel (label_of w)) s = None"
    "\<forall>s. raises w FilesList s = None"
    and e: "take 50 (drive s) = []"
  shows "main w s =
     (Inl TypeError,
      s\<lparr>calls := calls s @ [LoadCredentials, GetAllPagesByLabel (label_of w), FilesList]\<rparr>)"
  using ok e by (simp add: main_steps[OF cfg] Let_def)

lemma example_world_simps:
  "configured (example_world ps)"
  "label_of (example_world ps) = py ''jam''"
  "target_folder (example_world ps) = py ''1HsnsarPvc7UyD-fgvCcdx_Zm9FBhv4mM''"
  "raises (example_world ps) c s = None"
  "labelled (example_world ps) l = (if l = py ''jam'' then ps else [])"
  "unicode (example_world ps) = ucd_excerpt"
  by (simp_all add: configured_def label_of_def target_folder_def example_world_def
      example_environ_def getenv_def getenv_default_def truthy_def)



lemma example_run:
  "main (example_world []) (example_state [folder_entry, inside_file, outside_file]) =
     (Inr (),
      \<lparr>drive = [folder_entry], files = Map.empty,
       calls = [LoadCredentials, GetAllPagesByLabel (py ''jam''), FilesList,
                FilesDelete (py ''f1''), FilesDelete (py ''f2'')]\<rparr>)"
proof -
  have "take 50 (drive (example_state [folder_entry, inside_file, outside_file])) \<noteq> []"
    by (simp add: example_state_def)
  then show ?thesis
    by (subst main_ok)
      (simp_all add: example_world_simps example_state_def folder_entry_def inside_file_def
        outside_file_def folder_type_def)
qed

lemma main_zero_pages_calls:
  assumes cfg: "configured w" and z: "labelled w (label_of w) = []"
  shows "\<exists>pre n. run_calls w s = pre
           @ map (\<lambda>f. FilesDelete (file_id f))
               (take n (filter (\<lambda>x. mimeType x \<noteq> folder_type) (take 50 (drive s))))
        \<and> set pre \<subseteq> {LoadCredentials, GetAllPagesByLabel (label_of w), FilesList}"
proof -
  let ?dfs = "filter (\<lambda>x. mimeType x \<noteq> folder_type) (take 50 (drive s))"
  from main_trace[OF cfg, of s] obtain pre n evs where
    t: "calls (snd (main w s)) = calls s @ pre @ map (\<lambda>f. FilesDelete (file_id f)) (take n ?dfs) @ evs"
    and pre: "set pre \<subseteq> {LoadCredentials, GetAllPagesByLabel (label_of w), FilesList}"
    and evs: "evs = [] \<or> (\<exists>s4. calls (snd (copy_pages w (target_folder w)
                 (take 50 (labelled w (label_of w))) s4)) = calls s4 @ evs)"
    by blast
  from evs z have "evs = []" by auto
  with t have "run_calls w s = pre @ map (\<lambda>f. FilesDelete (file_id f)) (take n ?dfs)"
    by (simp add: run_calls_def)
  with pre show ?thesis by blast
qed

subsection \<open>The claims about a run\<close>

text \<open>
  C5. If the domain, the auth token or the auth user is unset (or set to the empty
  string), the run halts with an \<open>AssertionError\<close> and has made no call: no credentials
  read, no wiki request, no storage listing, upload or delete; the state is the one it
  started from.
\<close>

theorem missing_configuration_halts:
  assumes "k = py ''CONFLUENCE_DOMAIN'' \<or> k = py ''JIRA_TOKEN'' \<or> k = py ''JIRA_USER''"
    and "environ w k = None \<or> environ w k = Some []"
  shows "(\<exists>m. fst (main w s) = Inl (AssertionError m)) \<and> snd (main w s) = s
         \<and> run_calls w s = []"
proof -
  from assms have "\<not> configured w"
    by (auto simp: configured_def getenv_def truthy_def)
  then obtain m where "main w s = (Inl (AssertionError m), s)"
    using main_unconfigured by blast
  then show ?thesis by (simp add: run_calls_def)
qed

theorem missing_configuration_halts_witness:
  "environ ((example_world [])\<lparr>environ := example_environ(py ''JIRA_TOKEN'' := None)\<rparr>)
     (py ''JIRA_TOKEN'') = None
   \<and> main ((example_world [])\<lparr>environ := example_environ(py ''JIRA_TOKEN'' := None)\<rparr>)
        (example_state [inside_file])
      = (Inl (AssertionError (py ''JIRA_TOKEN not set as environmental variable'')),
         example_state [inside_file])
   \<and> run_calls ((example_world [])\<lparr>environ := example_environ(py ''JIRA_TOKEN'' := None)\<rparr>)
        (example_state [inside_file]) = []"
  using missing_configuration_halts
    [of "py ''JIRA_TOKEN''"
        "(example_world [])\<lparr>environ := example_environ(py ''JIRA_TOKEN'' := None)\<rparr>"
        "example_state [inside_file]"]
  by (simp add: main_def Let_def getenv_def getenv_default_def truthy_def example_world_def
      example_environ_def)

text \<open>
  C4. Whatever the storage holds and whichever calls raise, every identifier passed to
  the delete operation during a run is the identifier of a listed entry whose
  \<open>mimeType\<close> is not the folder type. With identifiers that are unique, as the provider's
  are, no listed folder is ever passed to delete, and every listed folder is still
  stored after the run.
\<close>

theorem purge_never_deletes_folder:
  "(\<forall>i. FilesDelete i \<in> set (run_calls w s) \<longrightarrow>
       (\<exists>x\<in>set (take 50 (drive s)). file_id x = i \<and> mimeType x \<noteq> folder_type))
   \<and> (distinct (map file_id (drive s)) \<longrightarrow>
       (\<forall>x\<in>set (take 50 (drive s)). mimeType x = folder_type \<longrightarrow>
          FilesDelete (file_id x) \<notin> set (run_calls w s) \<and> x \<in> set (drive (snd (main w s)))))"
proof (intro conjI allI impI ballI)
  fix i
  assume "FilesDelete i \<in> set (run_calls w s)"
  then show "\<exists>x\<in>set (take 50 (drive s)). file_id x = i \<and> mimeType x \<noteq> folder_type"
    by (rule run_calls_deletes)
next
  fix x
  assume d: "distinct (map file_id (drive s))" and x: "x \<in> set (take 50 (drive s))"
    and f: "mimeType x = folder_type"
  from d have inj: "inj_on file_id (set (drive s))" by (simp add: distinct_map)
  from x have xs: "x \<in> set (drive s)" by (rule in_set_takeD)
  have other: "y = x" if "y \<in> set (take 50 (drive s))" "file_id y = file_id x" for y
    using that inj xs by (auto dest: in_set_takeD inj_onD)
  show "FilesDelete (file_id x) \<notin> set (run_calls w s)"
  proof
    assume "FilesDelete (file_id x) \<in> set (run_calls w s)"
    then obtain y where "y \<in> set (take 50 (drive s))" "file_id y = file_id x"
      "mimeType y \<noteq> folder_type"
      using run_calls_deletes by blast
    with other f show False by blast
  qed
  have "file_id x \<notin> file_id ` set (filter (\<lambda>x. mimeType x \<noteq> folder_type) (take 50 (drive s)))"
    using other f by auto
  with xs show "x \<in> set (drive (snd (main w s)))" by (rule main_drive_keeps)
qed

theorem purge_never_deletes_folder_witness:
  "run_calls (example_world []) (example_state [folder_entry, inside_file, outside_file])
     = [LoadCredentials, GetAllPagesByLabel (py ''jam''), FilesList,
        FilesDelete (file_id inside_file), FilesDelete (file_id outside_file)]
   \<and> mimeType inside_file \<noteq> folder_type \<and> mimeType outside_file \<noteq> folder_type
   \<and> distinct (map file_id [folder_entry, inside_file, outside_file])
   \<and> mimeType folder_entry = folder_type
   \<and> FilesDelete (file_id folder_entry) \<notin>
        set (run_calls (example_world []) (example_state [folder_entry, inside_file, outside_file]))
   \<and> folder_entry \<in>
        set (drive (snd (main (example_world [])
               (example_state [folder_entry, inside_file, outside_file]))))"
  using purge_never_deletes_folder
    [of "example_world []" "example_state [folder_entry, inside_file, outside_file]"]
  by (simp add: run_calls_def example_run)
    (simp add: example_state_def folder_entry_def inside_file_def outside_file_def
      folder_type_def)




text \<open>
  C6. When the wiki has no page with the label, a run makes no upload, no PDF render
  and no local write, whichever calls raise. When moreover the configuration is complete
  and no call raises, the run lists the storage and deletes every listed entry that is
  not a folder, in order, and none of them is stored afterwards.
\<close>

theorem zero_pages_still_purges:
  assumes "labelled w (label_of w) = []"
  shows "(\<forall>p d. FilesCreate p d \<notin> set (run_calls w s))
     \<and> (\<forall>i. GetPageAsPdf i \<notin> set (run_calls w s))
     \<and> (\<forall>p c. WriteFile p c \<notin> set (run_calls w s))
     \<and> (configured w \<and> (\<forall>c s. raises w c s = None) \<longrightarrow>
          run_calls w s =
            [LoadCredentials, GetAllPagesByLabel (label_of w), FilesList]
            @ map (\<lambda>f. FilesDelete (file_id f))
                (filter (\<lambda>x. mimeType x \<noteq> folder_type) (take 50 (drive s)))
          \<and> (\<forall>x\<in>set (take 50 (drive s)).
                mimeType x \<noteq> folder_type \<longrightarrow> x \<notin> set (drive (snd (main w s)))))"
proof -
  let ?dfs = "filter (\<lambda>x. mimeType x \<noteq> folder_type) (take 50 (drive s))"
  have none: "\<forall>c\<in>set (run_calls w s).
      c \<in> {LoadCredentials, GetAllPagesByLabel (label_of w), FilesList} \<or> (\<exists>i. c = FilesDelete i)"
  proof (cases "configured w")
    case False
    then show ?thesis by (simp add: run_calls_unconfigured)
  next
    case True
    from main_zero_pages_calls[OF True assms, of s] obtain pre n where
      "run_calls w s = pre @ map (\<lambda>f. FilesDelete (file_id f)) (take n ?dfs)"
      "set pre \<subseteq> {LoadCredentials, GetAllPagesByLabel (label_of w), FilesList}"
      by blast
    then show ?thesis by auto
  qed
  have a: "\<forall>p d. FilesCreate p d \<notin> set (run_calls w s)" using none by auto
  have b: "\<forall>i. GetPageAsPdf i \<notin> set (run_calls w s)" using none by auto
  have c: "\<forall>p c. WriteFile p c \<notin> set (run_calls w s)" using none by auto
  have d: "run_calls w s =
            [LoadCredentials, GetAllPagesByLabel (label_of w), FilesList]
            @ map (\<lambda>f. FilesDelete (file_id f)) ?dfs
          \<and> (\<forall>x\<in>set (take 50 (drive s)).
                mimeType x \<noteq> folder_type \<longrightarrow> x \<notin> set (drive (snd (main w s))))"
    if cfg: "configured w" and ok: "\<forall>c s. raises w c s = None"
  proof (cases "take 50 (drive s) = []")
    case True
    with cfg ok show ?thesis by (simp add: main_empty_listing run_calls_def)
  next
    case False
    from main_ok[OF cfg ok False] assms show ?thesis
      by (auto simp: run_calls_def)
  qed
  from a b c d show ?thesis by blast
qed

theorem zero_pages_still_purges_witness:
  "labelled (example_world []) (label_of (example_world [])) = []
   \<and> configured (example_world []) \<and> (\<forall>c s. raises (example_world []) c s = None)
   \<and> main (example_world []) (example_state [folder_entry, inside_file, outside_file])
     = (Inr (),
        \<lparr>drive = [folder_entry], files = Map.empty,
         calls = [LoadCredentials, GetAllPagesByLabel (py ''jam''), FilesList,
                  FilesDelete (py ''f1''), FilesDelete (py ''f2'')]\<rparr>)
   \<and> run_calls (example_world []) (example_state [folder_entry, inside_file, outside_file])
     = [LoadCredentials, GetAllPagesByLabel (py ''jam''), FilesList,
        FilesDelete (py ''f1''), FilesDelete (py ''f2'')]"
  using zero_pages_still_purges
    [of "example_world []" "example_state [folder_entry, inside_file, outside_file]"]
  by (simp add: example_world_simps example_run run_calls_def)
    (simp add: example_state_def)

text \<open>
  C10. A run against an empty listing ends in an exception and makes no delete, no
  render and no upload, whichever calls raise: its calls are among the credentials read,
  the wiki query and the listing, and storage and local files are as before. When the
  configuration is complete and those three calls do not raise, \<open>read_google_drive\<close>
  returns \<open>None\<close> and the exception is the \<open>TypeError\<close> of the filter.
\<close>

theorem empty_listing_aborts:
  assumes "take 50 (drive s) = []"
  shows "(\<exists>e. fst (main w s) = Inl e)
     \<and> set (run_calls w s) \<subseteq> {LoadCredentials, GetAllPagesByLabel (label_of w), FilesList}
     \<and> drive (snd (main w s)) = drive s \<and> files (snd (main w s)) = files s
     \<and> (configured w \<and> (\<forall>s'. raises w LoadCredentials s' = None)
          \<and> (\<forall>s'. raises w (GetAllPagesByLabel (label_of w)) s' = None)
          \<and> (\<forall>s'. raises w FilesList s' = None) \<longrightarrow>
          fst (read_google_drive w s) = Inr None
          \<and> fst (main w s) = Inl TypeError
          \<and> run_calls w s = [LoadCredentials, GetAllPagesByLabel (label_of w), FilesList])"
proof (cases "configured w")
  case False
  then obtain m where "main w s = (Inl (AssertionError m), s)"
    using main_unconfigured by blast
  with False show ?thesis by (simp add: run_calls_def)
next
  case True
  have a: "(\<exists>e. fst (main w s) = Inl e)
     \<and> set (run_calls w s) \<subseteq> {LoadCredentials, GetAllPagesByLabel (label_of w), FilesList}
     \<and> drive (snd (main w s)) = drive s \<and> files (snd (main w s)) = files s"
    using assms
    by (auto simp: main_steps[OF True] run_calls_def Let_def split: option.splits)
  have b: "fst (read_google_drive w s) = Inr None
          \<and> fst (main w s) = Inl TypeError
          \<and> run_calls w s = [LoadCredentials, GetAllPagesByLabel (label_of w), FilesList]"
    if "\<forall>s'. raises w LoadCredentials s' = None"
      "\<forall>s'. raises w (GetAllPagesByLabel (label_of w)) s' = None"
      "\<forall>s'. raises w FilesList s' = None"
    using that assms True by (simp add: main_empty_listing read_cases run_calls_def)
  from a b show ?thesis by blast
qed

theorem empty_listing_aborts_witness:
  "take 50 (drive (example_state [])) = []
   \<and> configured (example_world [\<lparr>page_id = py ''1'', title = py ''Weekly Sync''\<rparr>])
   \<and> fst (read_google_drive (example_world [\<lparr>page_id = py ''1'', title = py ''Weekly Sync''\<rparr>])
            (example_state [])) = Inr None
   \<and> main (example_world [\<lparr>page_id = py ''1'', title = py ''Weekly Sync''\<rparr>]) (example_state [])
     = (Inl TypeError,
        \<lparr>drive = [], files = Map.empty,
         calls = [LoadCredentials, GetAllPagesByLabel (py ''jam''), FilesList]\<rparr>)"
  using empty_listing_aborts
    [where w = "example_world [\<lparr>page_id = py ''1'', title = py ''Weekly Sync''\<rparr>]"
       and s = "example_state []"]
  by (simp add: example_world_simps main_empty_listing read_cases)
    (simp add: example_state_def)



end
